theory Spec2Isabelle
  imports Main
begin

section \<open>Strings as Python sees them\<close>

text \<open>
  A Python \<open>str\<close> is modelled by a \<open>string\<close>: one \<open>char\<close> per code point, for
  text whose code points are below 256. The character classes are those of Python 3 on
  that range: \<open>str.isspace\<close>, which is also the class \<open>\s\<close> of the \<open>re\<close> module and
  the set \<open>str.strip\<close> removes, and the class \<open>\w\<close> (alphanumeric or underscore).
\<close>

definition NL :: char where
  "NL = CHR 0x0A"

definition is_space :: "char \<Rightarrow> bool" where
  "is_space c = (c \<in> {CHR 0x09, CHR 0x0A, CHR 0x0B, CHR 0x0C, CHR 0x0D, CHR 0x1C, CHR 0x1D,
     CHR 0x1E, CHR 0x1F, CHR 0x20, CHR 0x85, CHR 0xA0})"

definition is_word :: "char \<Rightarrow> bool" where
  "is_word c =
     (let n = (of_char c :: nat) in
        (48 \<le> n \<and> n \<le> 57) \<or> (65 \<le> n \<and> n \<le> 90) \<or> n = 95 \<or> (97 \<le> n \<and> n \<le> 122) \<or>
        n = 170 \<or> n = 178 \<or> n = 179 \<or> n = 181 \<or> n = 185 \<or> n = 186 \<or>
        (188 \<le> n \<and> n \<le> 190) \<or> (192 \<le> n \<and> n \<le> 214) \<or> (216 \<le> n \<and> n \<le> 246) \<or>
        (248 \<le> n \<and> n \<le> 255))"

definition lower_char :: "char \<Rightarrow> char" where
  "lower_char c =
     (let n = (of_char c :: nat) in
        if (65 \<le> n \<and> n \<le> 90) \<or> (192 \<le> n \<and> n \<le> 222 \<and> n \<noteq> 215)
        then char_of (n + 32) else c)"

definition lower :: "string \<Rightarrow> string" where
  "lower s = map lower_char s"

text \<open>\<open>s.startswith(p)\<close> and \<open>s.endswith(p)\<close>.\<close>

definition startswith :: "string \<Rightarrow> string \<Rightarrow> bool" where
  "startswith s p = (take (length p) s = p)"

definition endswith :: "string \<Rightarrow> string \<Rightarrow> bool" where
  "endswith s p = (length p \<le> length s \<and> drop (length s - length p) s = p)"

text \<open>\<open>s.strip()\<close>: whitespace removed at both ends.\<close>

definition strip :: "string \<Rightarrow> string" where
  "strip s = rev (dropWhile is_space (rev (dropWhile is_space s)))"

text \<open>
  \<open>s.replace(old, new)\<close> for a non-empty \<open>old\<close>: the occurrences are replaced from
  the left, without overlap. Every call of the source has a non-empty \<open>old\<close>; the
  model leaves the text unchanged for an empty one.
\<close>

fun replace :: "string \<Rightarrow> string \<Rightarrow> string \<Rightarrow> string" where
  "replace old new [] = []"
| "replace old new (c # cs) =
     (if old \<noteq> [] \<and> startswith (c # cs) old
      then new @ replace old new (drop (length old - 1) cs)
      else c # replace old new cs)"

text \<open>
  \<open>re.sub(r"^##.*?\n\n", "", s)\<close>, with no flag: \<open>^\<close> is the start of the text only, so
  at most one match is replaced. The match is \<open>##\<close>, the rest of that line (\<open>.\<close> stops
  at a line break) and the two line breaks that must follow it at once.
\<close>

definition sub_title_line :: "string \<Rightarrow> string" where
  "sub_title_line s =
     (if startswith s ''##''
      then (let after = dropWhile (\<lambda>c. c \<noteq> NL) (drop 2 s)
            in if startswith after [NL, NL] then drop 2 after else s)
      else s)"

section \<open>The parsed document\<close>

text \<open>The dictionary \<open>process_markdown_file\<close> returns, one field per key.\<close>

record post_data =
  title :: string
  hook :: string
  first_tweet :: string
  solution :: string
  takeaway :: string
  clean_content :: string
  code_blocks :: "(string \<times> string \<times> string) list"
  verified :: bool

section \<open>\<open>create_twitter_thread\<close>\<close>

text \<open>
  The first tweet. \<open>hook_pattern\<close> is the escaped literal \<open>**hook**\<close>, so the second
  \<open>re.sub\<close> deletes the occurrences of that literal.
\<close>

definition first_tweet_of :: "post_data \<Rightarrow> string" where
  "first_tweet_of pd =
     (let first0 = (if hook pd \<noteq> [] then ''**'' @ hook pd @ ''**'' else [])
      in if first_tweet pd \<noteq> []
         then (let intro_text = sub_title_line (first_tweet pd);
                   intro_text = strip (replace (''**'' @ hook pd @ ''**'') [] intro_text)
               in if intro_text \<noteq> []
                  then (if first0 \<noteq> [] then first0 @ [NL, NL] @ intro_text else intro_text)
                  else first0)
         else first0)"

text \<open>The second tweet: solution, takeaway and the footer of the series.\<close>

definition second_tweet_of :: "post_data \<Rightarrow> string" where
  "second_tweet_of pd =
     (let second0 =
            (if solution pd \<noteq> []
             then (let sol = replace ''### The Solution '' ''**''
                               (replace ''### The Solution: '' ''**'' (solution pd))
                   in if \<not> startswith sol ''**'' then ''**Solution:** '' @ sol
                      else sol @ ''**'')
             else []);
          second1 =
            (if takeaway pd \<noteq> []
             then (let tk = strip (replace ''### The Takeaway'' ''**Takeaway:**'' (takeaway pd))
                   in if second0 \<noteq> [] then second0 @ [NL, NL] @ tk else tk)
             else second0)
      in second1 @ [NL, NL] @ ''#EffectiveAI #AIEngineering'')"

definition create_twitter_thread ::
  "post_data \<Rightarrow> (string \<times> string list) list \<Rightarrow> string list" where
  "create_twitter_thread pd image_paths = [first_tweet_of pd, second_tweet_of pd]"

section \<open>Regular expressions of the source\<close>

text \<open>
  \<open>find_sub pat s\<close> splits \<open>s\<close> at the first occurrence of \<open>pat\<close>: the text before
  it and the text after it. \<open>contains pat s\<close> is Python's \<open>pat in s\<close>.
\<close>

fun find_sub :: "string \<Rightarrow> string \<Rightarrow> (string \<times> string) option" where
  "find_sub pat [] = (if pat = [] then Some ([], []) else None)"
| "find_sub pat (c # cs) =
     (if startswith (c # cs) pat then Some ([], drop (length pat) (c # cs))
      else (case find_sub pat cs of
              None \<Rightarrow> None
            | Some (before, after) \<Rightarrow> Some (c # before, after)))"

definition contains :: "string \<Rightarrow> string \<Rightarrow> bool" where
  "contains pat s = (find_sub pat s \<noteq> None)"

text \<open>
  Each pattern of the source is a matcher: given whether the position is the start of
  a line (the start of the text or just after a line break, where \<open>^\<close> matches under
  \<open>re.MULTILINE\<close>) and the text from the position on, it returns the captured groups
  and the length of the match the backtracking engine of \<open>re\<close> finds there, or
  \<open>None\<close>. \<open>re.sub\<close>, \<open>re.findall\<close> and \<open>re.search\<close> scan the positions from the
  left; after a match the scan goes on where the match ended. No pattern of the source
  matches the empty text, and a matcher that reports length 0 counts as no match for
  \<open>re_sub\<close> and \<open>re_findall\<close>.
\<close>

type_synonym matcher = "bool \<Rightarrow> string \<Rightarrow> (string list \<times> nat) option"

fun re_sub :: "matcher \<Rightarrow> (string list \<Rightarrow> string) \<Rightarrow> bool \<Rightarrow> string \<Rightarrow> string" where
  "re_sub m f bol [] = []"
| "re_sub m f bol (c # cs) =
     (case m bol (c # cs) of
        Some (gs, Suc n) \<Rightarrow> f gs @ re_sub m f ((c # cs) ! n = NL) (drop n cs)
      | _ \<Rightarrow> c # re_sub m f (c = NL) cs)"

fun re_findall :: "matcher \<Rightarrow> bool \<Rightarrow> string \<Rightarrow> string list list" where
  "re_findall m bol [] = []"
| "re_findall m bol (c # cs) =
     (case m bol (c # cs) of
        Some (gs, Suc n) \<Rightarrow> gs # re_findall m ((c # cs) ! n = NL) (drop n cs)
      | _ \<Rightarrow> re_findall m (c = NL) cs)"

text \<open>\<open>re_search m bol i s\<close>: the first match at or after position \<open>i\<close>, as (start, end, groups).\<close>

fun re_search :: "matcher \<Rightarrow> bool \<Rightarrow> nat \<Rightarrow> string \<Rightarrow> (nat \<times> nat \<times> string list) option" where
  "re_search m bol i [] =
     (case m bol [] of Some (gs, n) \<Rightarrow> Some (i, i + n, gs) | None \<Rightarrow> None)"
| "re_search m bol i (c # cs) =
     (case m bol (c # cs) of
        Some (gs, n) \<Rightarrow> Some (i, i + n, gs)
      | None \<Rightarrow> re_search m (c = NL) (Suc i) cs)"

text \<open>
  \<open>```(\w*)\n(.*?)```\<close> with \<open>re.DOTALL\<close>: the fence, the longest run of word
  characters (a shorter one is followed by a word character, not by the line break),
  a line break, then the shortest text up to the next fence. Groups: language, code.
\<close>

definition m_fence :: matcher where
  "m_fence bol s =
     (if startswith s ''```''
      then (let r = drop 3 s; lang = takeWhile is_word r; r2 = dropWhile is_word r
            in if startswith r2 [NL]
               then (case find_sub ''```'' (drop 1 r2) of
                       None \<Rightarrow> None
                     | Some (code, after) \<Rightarrow>
                         Some ([lang, code], 3 + length lang + 1 + length code + 3))
               else None)
      else None)"

text \<open>
  The tail \<open>\s+(.+)$\<close> of a heading pattern, under \<open>re.MULTILINE\<close>. \<open>\s+\<close> first takes
  the whole run of whitespace, line breaks included; \<open>.+\<close> then takes the rest of the
  line. When the run reaches the end of the text, \<open>\s+\<close> gives characters back until
  \<open>.+\<close> can start: at the last character of the run, after the first one, that is no
  line break. The result is the length of \<open>\s+\<close> and the group.
\<close>

definition ws_then_line :: "string \<Rightarrow> (nat \<times> string) option" where
  "ws_then_line r =
     (let ws = takeWhile is_space r; r2 = dropWhile is_space r
      in if ws = [] then None
         else if r2 \<noteq> [] then Some (length ws, takeWhile (\<lambda>c. c \<noteq> NL) r2)
         else (case find (\<lambda>j. ws ! j \<noteq> NL) (rev [1 ..< length ws]) of
                 None \<Rightarrow> None
               | Some j \<Rightarrow> Some (j, takeWhile (\<lambda>c. c \<noteq> NL) (drop j ws))))"

text \<open>
  \<open>^#{1,6}\s+(.+)$\<close> with \<open>re.MULTILINE\<close>: the line starts with one to six \<open>#\<close>,
  all of them taken (after fewer, or after six of more, the next character is \<open>#\<close>,
  no whitespace).
\<close>

definition m_header :: matcher where
  "m_header bol s =
     (if bol
      then (let h = length (takeWhile (\<lambda>c. c = CHR ''#'') s)
            in if 1 \<le> h \<and> h \<le> 6
               then (case ws_then_line (drop h s) of
                       None \<Rightarrow> None
                     | Some (j, g) \<Rightarrow> Some ([g], h + j + length g))
               else None)
      else None)"

text \<open>\<open>^##\s+(.+)$\<close> with \<open>re.MULTILINE\<close>: the title heading.\<close>

definition m_title :: matcher where
  "m_title bol s =
     (if bol \<and> startswith s ''##''
      then (case ws_then_line (drop 2 s) of
              None \<Rightarrow> None
            | Some (j, g) \<Rightarrow> Some ([g], 2 + j + length g))
      else None)"

text \<open>
  \<open>^Python\s*$\<close> with \<open>re.MULTILINE\<close>: \<open>\s*\<close> takes the whole run of whitespace; if
  the text does not end there, it gives characters back to the last line break of the
  run, before which \<open>$\<close> matches.
\<close>

definition m_python :: matcher where
  "m_python bol s =
     (if bol \<and> startswith s ''Python''
      then (let r = drop 6 s; ws = takeWhile is_space r
            in if dropWhile is_space r = [] then Some ([], 6 + length ws)
               else (case find (\<lambda>j. ws ! j = NL) (rev [0 ..< length ws]) of
                       None \<Rightarrow> None
                     | Some j \<Rightarrow> Some ([], 6 + j)))
      else None)"

text \<open>\<open>\n{3,}\<close>: a whole run of three or more line breaks.\<close>

definition m_blank :: matcher where
  "m_blank bol s =
     (let k = length (takeWhile (\<lambda>c. c = NL) s)
      in if 3 \<le> k then Some ([], k) else None)"

text \<open>
  \<open>^#\s*BEFORE:\<close> and \<open>^#\s*AFTER:\<close> with \<open>re.MULTILINE\<close>, the keyword a parameter:
  a \<open>#\<close> at the start of a line, the whole run of whitespace, the keyword. Only
  \<open>re.search\<close> uses it, as a test.
\<close>

definition m_label :: "string \<Rightarrow> matcher" where
  "m_label kw bol s =
     (if bol \<and> startswith s ''#''
      then (let ws = takeWhile is_space (drop 1 s)
            in if startswith (dropWhile is_space (drop 1 s)) kw
               then Some ([], 1 + length ws + length kw)
               else None)
      else None)"

section \<open>\<open>extract_code_blocks\<close>\<close>

definition label_of :: "string \<Rightarrow> string" where
  "label_of code =
     (let before_match = re_search (m_label ''BEFORE:'') True 0 code;
          after_match = re_search (m_label ''AFTER:'') True 0 code
      in if before_match \<noteq> None then ''BEFORE''
         else if after_match \<noteq> None then ''AFTER''
         else [])"

text \<open>A block is (language, code, label); \<open>m_fence\<close> always returns the two groups.\<close>

fun labeled_block :: "string list \<Rightarrow> string \<times> string \<times> string" where
  "labeled_block (lang # code # _) = (lang, code, label_of code)"
| "labeled_block _ = ([], [], [])"

definition extract_code_blocks :: "string \<Rightarrow> (string \<times> string \<times> string) list" where
  "extract_code_blocks markdown_content =
     map labeled_block (re_findall m_fence True markdown_content)"

section \<open>\<open>clean_for_social\<close>\<close>

definition clean_for_social :: "string \<Rightarrow> string" where
  "clean_for_social markdown_content =
     (let clean_content =
            re_sub m_fence (\<lambda>gs. ''[Code example - see attached image]'') True markdown_content;
          clean_content = re_sub m_header (\<lambda>gs. hd gs) True clean_content;
          clean_content = re_sub m_python (\<lambda>gs. []) True clean_content;
          clean_content = re_sub m_blank (\<lambda>gs. [NL, NL]) True clean_content
      in strip clean_content)"

section \<open>The world outside: interpreter, subprocesses, temporary files\<close>

text \<open>
  What the scripts cannot decide by themselves is a parameter of the model, each a
  function of the code text:
  \<^item> how the built-in \<open>compile\<close> ends: it returns, it raises \<open>SyntaxError\<close>, or it raises
    something else (\<open>RecursionError\<close> on a deeply nested text, \<open>ValueError\<close> on a NUL
    character in older interpreters);
  \<^item> how creating the temporary file and writing the code to it ends: the text is
    written, the file is created and the write raises (\<open>UnicodeEncodeError\<close> under
    a locale that cannot encode the text, \<open>OSError\<close>), or no file can be created;
  \<^item> how \<open>subprocess.run\<close> with \<open>check=True\<close> ends on \<open>python -m py_compile\<close>: exit
    status 0, another status (\<open>CalledProcessError\<close>), or an exception of another kind
    when the program cannot be started.
\<close>

datatype compile_outcome = Compiled | SyntaxError | CompileRaised

datatype write_outcome = Written | WriteRaised | NotCreated

datatype run_outcome = Exit0 | NonZero | NotStarted

datatype error = FileNotFoundError | CompileError | TempFileError | SubprocessError

record env =
  builtin_compile :: "string \<Rightarrow> compile_outcome"
  tmp_write :: "string \<Rightarrow> write_outcome"
  run_py_compile :: "string \<Rightarrow> run_outcome"

text \<open>
  The state the scripts change: the temporary files that exist (a handle and the text
  written) and the texts handed to the syntax-check subprocess. \<open>NamedTemporaryFile\<close>
  picks a name that is not in use: \<open>fresh_tmp\<close>.
\<close>

record world =
  tmp_files :: "(nat \<times> string) list"
  py_compile_calls :: "string list"

definition fresh_tmp :: "world \<Rightarrow> nat" where
  "fresh_tmp w = Suc (foldr max (map fst (tmp_files w)) 0)"

definition write_tmp :: "nat \<Rightarrow> string \<Rightarrow> world \<Rightarrow> world" where
  "write_tmp p text w = w\<lparr>tmp_files := (p, text) # tmp_files w\<rparr>"

definition unlink :: "nat \<Rightarrow> world \<Rightarrow> world" where
  "unlink p w = w\<lparr>tmp_files := filter (\<lambda>(q, text). q \<noteq> p) (tmp_files w)\<rparr>"

section \<open>\<open>verify_python_code\<close>\<close>

definition has_marker :: "string \<Rightarrow> bool" where
  "has_marker code =
     (contains ''mirascope'' code \<or> contains ''@llm.call'' code \<or>
      contains ''@prompt_template'' code)"

text \<open>
  With a marker: \<open>compile\<close> only; \<open>True\<close> when it returns, \<open>False\<close> when it raises
  \<open>SyntaxError\<close>, the one exception the \<open>except\<close> clause names; any other exception
  leaves the function. Without a marker: the \<open>with\<close> block creates the temporary file
  (\<open>delete=False\<close>) and writes the code; an exception there leaves the function
  before the \<open>try\<close> is entered, and a file that was created stays, empty. After the
  \<open>with\<close> block the subprocess runs inside \<open>try\<close>, and the \<open>finally\<close> clause unlinks
  the file on the three ways out of the \<open>try\<close>.
\<close>

definition verify_python_code :: "env \<Rightarrow> world \<Rightarrow> string \<Rightarrow> world \<times> (error + bool)" where
  "verify_python_code e w code =
     (if has_marker code
      then (case builtin_compile e code of
              Compiled \<Rightarrow> (w, Inr True)
            | SyntaxError \<Rightarrow> (w, Inr False)
            | CompileRaised \<Rightarrow> (w, Inl CompileError))
      else (let temp_path = fresh_tmp w
            in case tmp_write e code of
                 NotCreated \<Rightarrow> (w, Inl TempFileError)
               | WriteRaised \<Rightarrow> (write_tmp temp_path [] w, Inl TempFileError)
               | Written \<Rightarrow>
                   (let w1 = write_tmp temp_path code w;
                        w2 = w1\<lparr>py_compile_calls := py_compile_calls w1 @ [code]\<rparr>
                    in case run_py_compile e code of
                         Exit0 \<Rightarrow> (unlink temp_path w2, Inr True)
                       | NonZero \<Rightarrow> (unlink temp_path w2, Inr False)
                       | NotStarted \<Rightarrow> (unlink temp_path w2, Inl SubprocessError))))"

section \<open>\<open>process_markdown_file\<close>\<close>

text \<open>
  \<open>^\s*\*\*(.+?)\*\*\<close> with \<open>re.MULTILINE\<close>: the whole run of whitespace, \<open>**\<close>, then
  the shortest non-empty text without a line break that \<open>**\<close> follows. \<open>lazy_close\<close>
  is the length of that text.
\<close>

fun lazy_close :: "string \<Rightarrow> nat option" where
  "lazy_close [] = None"
| "lazy_close (c # cs) =
     (if c = NL then None
      else if startswith cs ''**'' then Some 1
      else map_option Suc (lazy_close cs))"

definition m_hook :: matcher where
  "m_hook bol s =
     (if bol
      then (let ws = takeWhile is_space s; r = dropWhile is_space s
            in if startswith r ''**''
               then (case lazy_close (drop 2 r) of
                       None \<Rightarrow> None
                     | Some k \<Rightarrow> Some ([take k (drop 2 r)], length ws + 2 + k + 2))
               else None)
      else None)"

text \<open>
  \<open>###\s+The Problem\<close>, \<open>###\s+The Solution[:\s]\<close> and \<open>###\s+The Takeaway\<close>, no
  flag: \<open>###\<close>, the whole non-empty run of whitespace, the words; for the solution
  one more character, a colon or whitespace. \<open>m_words\<close> returns the length up to the
  end of the words and the text after them.
\<close>

definition m_words :: "string \<Rightarrow> string \<Rightarrow> (nat \<times> string) option" where
  "m_words name s =
     (if startswith s ''###''
      then (let ws = takeWhile is_space (drop 3 s); r = dropWhile is_space (drop 3 s)
            in if ws \<noteq> [] \<and> startswith r name
               then Some (3 + length ws + length name, drop (length name) r)
               else None)
      else None)"

definition m_problem :: matcher where
  "m_problem bol s =
     (case m_words ''The Problem'' s of None \<Rightarrow> None | Some (n, r) \<Rightarrow> Some ([], n))"

definition m_solution :: matcher where
  "m_solution bol s =
     (case m_words ''The Solution'' s of
        None \<Rightarrow> None
      | Some (n, r) \<Rightarrow>
          (case r of
             [] \<Rightarrow> None
           | c # _ \<Rightarrow> if c = CHR '':'' \<or> is_space c then Some ([], n + 1) else None))"

definition m_takeaway :: matcher where
  "m_takeaway bol s =
     (case m_words ''The Takeaway'' s of None \<Rightarrow> None | Some (n, r) \<Rightarrow> Some ([], n))"

text \<open>
  \<open>re.split(r"\n\n+", content)\<close>: the pieces between the runs of two or more line
  breaks; \<open>cur\<close> is the piece being read.
\<close>

fun split_paragraphs :: "string \<Rightarrow> string \<Rightarrow> string list" where
  "split_paragraphs cur [] = [cur]"
| "split_paragraphs cur (c # cs) =
     (let k = length (takeWhile (\<lambda>x. x = NL) (c # cs))
      in if 2 \<le> k then cur # split_paragraphs [] (drop (k - 1) cs)
         else split_paragraphs (cur @ [c]) cs)"

text \<open>
  The loop over the code blocks: a block whose language is \<open>python\<close> in any case is
  verified; a failure clears the flag and the loop goes on. An exception of
  \<open>verify_python_code\<close> is not caught and ends the loop.
\<close>

fun verify_blocks ::
  "env \<Rightarrow> world \<Rightarrow> (string \<times> string \<times> string) list \<Rightarrow> bool \<Rightarrow> world \<times> (error + bool)" where
  "verify_blocks e w [] v = (w, Inr v)"
| "verify_blocks e w ((lang, code, label) # bs) v =
     (if lower lang = ''python''
      then (case verify_python_code e w code of
              (w', Inl err) \<Rightarrow> (w', Inl err)
            | (w', Inr ok) \<Rightarrow> verify_blocks e w' bs (if \<not> ok then False else v))
      else verify_blocks e w bs v)"

text \<open>
  \<open>stem\<close> is \<open>path.stem\<close>; \<open>file\<close> is the text of the file, \<open>None\<close> when the path does
  not exist. \<open>takeaway_content\<close> is a local variable only when both headings are found.
\<close>

definition process_markdown_file ::
  "env \<Rightarrow> world \<Rightarrow> string \<Rightarrow> string option \<Rightarrow> world \<times> (error + post_data)" where
  "process_markdown_file e w stem file =
     (case file of
        None \<Rightarrow> (w, Inl FileNotFoundError)
      | Some content \<Rightarrow>
          (let title_match = re_search m_title True 0 content;
               title_text = (case title_match of
                               Some (st, en, gs) \<Rightarrow> hd gs
                             | None \<Rightarrow> stem);
               after_title = (case title_match of
                                Some (st, en, gs) \<Rightarrow> drop en content
                              | None \<Rightarrow> content);
               hook_text = (case re_search m_hook True 0 after_title of
                              Some (st, en, gs) \<Rightarrow> hd gs
                            | None \<Rightarrow> []);
               first_tweet_content =
                 (case re_search m_problem True 0 content of
                    Some (st, en, gs) \<Rightarrow> strip (take st content)
                  | None \<Rightarrow>
                      (let paragraphs = split_paragraphs [] content
                       in if length paragraphs > 2
                          then strip (paragraphs ! 1 @ [NL, NL] @ paragraphs ! 2)
                          else []));
               blocks = extract_code_blocks content
           in case verify_blocks e w blocks True of
                (w', Inl err) \<Rightarrow> (w', Inl err)
              | (w', Inr ver) \<Rightarrow>
                  (let cleaned = clean_for_social content;
                       solution_heading_match = re_search m_solution True 0 content;
                       takeaway_heading_match = re_search m_takeaway True 0 content;
                       sections =
                         (case solution_heading_match of
                            None \<Rightarrow> ([], None)
                          | Some (s_st, s_en, s_gs) \<Rightarrow>
                              (case takeaway_heading_match of
                                 None \<Rightarrow> ([], None)
                               | Some (t_st, t_en, t_gs) \<Rightarrow>
                                   (strip (drop s_st (take t_st content)),
                                    Some (strip (drop t_st content)))))
                   in (w', Inr \<lparr>title = title_text, hook = hook_text,
                                first_tweet = first_tweet_content,
                                solution = fst sections,
                                takeaway = (case snd sections of
                                              Some takeaway_content \<Rightarrow> takeaway_content
                                            | None \<Rightarrow> []),
                                clean_content = cleaned, code_blocks = blocks,
                                verified = ver\<rparr>))))"

section \<open>Paths and recognized languages\<close>

text \<open>
  \<open>os.path.join\<close> for a relative second part and \<open>os.path.basename\<close>.
\<close>

definition path_join :: "string \<Rightarrow> string \<Rightarrow> string" where
  "path_join a b = (if a = [] \<or> last a = CHR ''/'' then a @ b else a @ ''/'' @ b)"

definition basename :: "string \<Rightarrow> string" where
  "basename p = rev (takeWhile (\<lambda>c. c \<noteq> CHR ''/'') (rev p))"

text \<open>
  The languages of the blocks \<open>process_code_blocks_from_file\<close> renders, compared in
  lower case.
\<close>

definition recognized :: "string \<Rightarrow> bool" where
  "recognized lang =
     (lower lang \<in> set [''python'', ''javascript'', ''typescript'', ''java'', ''bash'', ''sh'',
        ''txt'', ''sql''])"

section \<open>\<open>prepare_social_post\<close>\<close>

record social_post =
  post_title :: string
  post_verified :: bool
  image_paths :: "(string \<times> string list) list"
  thread :: "string list"
  thread_count :: nat
  linkedin_content :: string

text \<open>
  One image found in the root directories: when \<open>mv\<close> succeeds, the entries of the
  manifest with the same base name become the destination path.
\<close>

definition relocate ::
  "(string \<Rightarrow> bool) \<Rightarrow> string \<Rightarrow> (string \<times> string list) list \<Rightarrow> string \<Rightarrow>
   (string \<times> string list) list" where
  "relocate mv_ok images_dir paths img_path =
     (if img_path \<noteq> [] \<and> img_path \<notin> set [''.'', ''..''] \<and> mv_ok img_path
      then map (\<lambda>(key, ps).
                  (key, map (\<lambda>path. if basename path = basename img_path
                                     then path_join images_dir (basename img_path)
                                     else path) ps)) paths
      else paths)"

text \<open>
  The call of \<open>process_code_blocks_from_file\<close>, the function of \<open>generate_images\<close>
  that renders the blocks, is commented out in the source and the manifest starts as
  the empty dictionary. \<open>root_images\<close> are the paths the \<open>find\<close>
  subprocesses report and \<open>mv_ok\<close> tells whether \<open>mv\<close> succeeds on a path. The text
  files and the JSON summary written to the output directory repeat the values
  returned and are left out.
\<close>

definition prepare_social_post ::
  "env \<Rightarrow> world \<Rightarrow> string \<Rightarrow> string \<Rightarrow> string option \<Rightarrow> string list \<Rightarrow> (string \<Rightarrow> bool) \<Rightarrow>
   world \<times> (error + social_post)" where
  "prepare_social_post e w stem output_dir file root_images mv_ok =
     (case process_markdown_file e w stem file of
        (w', Inl err) \<Rightarrow> (w', Inl err)
      | (w', Inr pd) \<Rightarrow>
          (let images_dir = path_join output_dir ''images'';
               paths0 = [];
               linkedin = sub_title_line (clean_content pd);
               twitter_threads = create_twitter_thread pd paths0;
               paths1 = foldl (relocate mv_ok images_dir) paths0 root_images
           in (w', Inr \<lparr>post_title = title pd, post_verified = verified pd,
                        image_paths = paths1, thread = twitter_threads,
                        thread_count = length twitter_threads,
                        linkedin_content = linkedin\<rparr>)))"

section \<open>Notions the properties are stated with\<close>

text \<open>
  \<open>marker_line kw code\<close>: what \<open>re.search\<close> with \<open>^#\s*\<close>, the keyword and
  \<open>re.MULTILINE\<close> looks for. The text has a \<open>#\<close> at the start of a line, after it a run
  of whitespace, which may be empty and may hold line breaks (\<open>\s\<close> matches them, so
  the keyword may stand on a later line than the \<open>#\<close>), and then the keyword.
\<close>

definition marker_line :: "string \<Rightarrow> string \<Rightarrow> bool" where
  "marker_line kw code =
     (\<exists>pre ws suf. code = pre @ ''#'' @ ws @ kw @ suf \<and> (pre = [] \<or> last pre = NL) \<and>
        list_all is_space ws)"

text \<open>
  The label as the specification words it, read from the first line of the block
  alone: the text up to the first line break.
\<close>

definition first_line_label :: "string \<Rightarrow> string" where
  "first_line_label code =
     (let line = takeWhile (\<lambda>c. c \<noteq> NL) code
      in if m_label ''BEFORE:'' True line \<noteq> None then ''BEFORE''
         else if m_label ''AFTER:'' True line \<noteq> None then ''AFTER''
         else [])"

text \<open>
  \<open>heading_present name content\<close>: the text holds \<open>###\<close>, whitespace and the words of
  the heading.
\<close>

definition heading_present :: "string \<Rightarrow> string \<Rightarrow> bool" where
  "heading_present name content =
     (\<exists>pre ws suf. content = pre @ ''###'' @ ws @ name @ suf \<and> ws \<noteq> [] \<and> list_all is_space ws)"

text \<open>
  The blocks \<open>process_markdown_file\<close> verifies, the code of a block, and whether the
  verification of a code text raises.
\<close>

definition is_python :: "string \<times> string \<times> string \<Rightarrow> bool" where
  "is_python b = (lower (fst b) = ''python'')"

definition block_code :: "string \<times> string \<times> string \<Rightarrow> string" where
  "block_code b = fst (snd b)"

definition verification_raises :: "env \<Rightarrow> world \<Rightarrow> string \<Rightarrow> bool" where
  "verification_raises e w code = isl (snd (verify_python_code e w code))"

text \<open>
  \<open>has_match m s\<close>: \<open>re.search\<close> finds the pattern in \<open>s\<close>. \<open>has_triple s\<close>: three line
  breaks in a row occur in \<open>s\<close>. \<open>run s\<close>: the number of line breaks \<open>s\<close> starts with.
\<close>

definition has_match :: "matcher \<Rightarrow> string \<Rightarrow> bool" where
  "has_match m s = (re_search m True 0 s \<noteq> None)"

fun has_triple :: "string \<Rightarrow> bool" where
  "has_triple (a # b # c # r) = ((a = NL \<and> b = NL \<and> c = NL) \<or> has_triple (b # c # r))"
| "has_triple _ = False"

definition run :: "string \<Rightarrow> nat" where
  "run s = length (takeWhile (\<lambda>c. c = NL) s)"

section \<open>Sample documents and environments\<close>

text \<open>
  An empty world. An environment whose interpreter rejects exactly the texts with an
  opening parenthesis; one where \<open>python\<close> cannot be started; one where \<open>compile\<close>
  raises an exception other than \<open>SyntaxError\<close>; one whose locale encodes ASCII only.
\<close>

definition world0 :: world where
  "world0 = \<lparr>tmp_files = [], py_compile_calls = []\<rparr>"

definition env_demo :: env where
  "env_demo = \<lparr>builtin_compile = (\<lambda>code. if contains ''('' code then SyntaxError else Compiled),
                tmp_write = (\<lambda>code. Written),
                run_py_compile = (\<lambda>code. if contains ''('' code then NonZero else Exit0)\<rparr>"

definition env_no_python :: env where
  "env_no_python = \<lparr>builtin_compile = (\<lambda>code. Compiled),
                tmp_write = (\<lambda>code. Written),
                run_py_compile = (\<lambda>code. NotStarted)\<rparr>"

definition env_compile_raises :: env where
  "env_compile_raises = \<lparr>builtin_compile = (\<lambda>code. CompileRaised),
                tmp_write = (\<lambda>code. Written),
                run_py_compile = (\<lambda>code. Exit0)\<rparr>"

definition env_ascii :: env where
  "env_ascii = \<lparr>builtin_compile = (\<lambda>code. Compiled),
                tmp_write = (\<lambda>code. if list_all (\<lambda>c. (of_char c :: nat) < 128) code
                                     then Written else WriteRaised),
                run_py_compile = (\<lambda>code. Exit0)\<rparr>"

text \<open>
  A block with a comment on its first line and the marker on its third; a block with
  both markers, \<open>AFTER\<close> first; a document with a failing and a passing Python block
  and no takeaway heading; a tip with title, hook and body; a document whose cleaned
  form has nothing left to clean; a code text with a character outside ASCII.
\<close>

definition doc_note_then_marker :: string where
  "doc_note_then_marker = ''```python'' @ [NL] @ ''# note'' @ [NL] @ ''x = 1'' @ [NL] @
     ''# BEFORE: y'' @ [NL] @ ''```''"

definition doc_both_markers :: string where
  "doc_both_markers = ''```python'' @ [NL] @ ''# AFTER: b'' @ [NL] @ ''# BEFORE: a'' @ [NL] @ ''```''"

definition doc_two_blocks :: string where
  "doc_two_blocks = ''## Tip'' @ [NL, NL] @ ''```python'' @ [NL] @ ''x = ('' @ [NL] @ ''```'' @ [NL] @
     ''### The Solution: Y'' @ [NL] @ ''```Python'' @ [NL] @ ''y = 1'' @ [NL] @ ''```''"

definition doc_tip :: string where
  "doc_tip = ''## Tip 1'' @ [NL, NL] @ ''**Do X**'' @ [NL, NL] @ ''Body''"

definition doc_plain :: string where
  "doc_plain = ''## Tip 1'' @ [NL, NL, NL, NL] @ ''Python'' @ [NL] @ ''```python'' @ [NL] @ ''x = 1'' @ [NL] @ ''```'' @ [NL]"

definition code_latin1 :: string where
  "code_latin1 = ''s = '' @ [CHR 0x22, CHR 0xE9, CHR 0x22] @ [NL]"

section \<open>The Twitter thread\<close>

lemma endswith_append: "endswith (a @ p) p"
  by (simp add: endswith_def)

text \<open>
  C1. For every parsed document the thread built by \<open>create_twitter_thread\<close> is a list
  of exactly two strings, and the second one ends with the footer
  \<open>#EffectiveAI #AIEngineering\<close>, whatever the solution and takeaway fields hold
  (empty or not).
\<close>

theorem twitter_thread_two_with_footer:
  "length (create_twitter_thread pd imgs) = 2 \<and>
   endswith (create_twitter_thread pd imgs ! 1) ''#EffectiveAI #AIEngineering''"
proof -
  have "endswith (second_tweet_of pd) ''#EffectiveAI #AIEngineering''"
    unfolding second_tweet_of_def Let_def
    using endswith_append [of "_ @ [NL, NL]" "''#EffectiveAI #AIEngineering''"]
    by (simp only: append_assoc)
  then show ?thesis
    by (simp add: create_twitter_thread_def)
qed

section \<open>Scanning with a matcher\<close>

lemma re_search_None_re_sub: "re_search m bol i s = None \<Longrightarrow> re_sub m f bol s = s"
proof (induction s arbitrary: bol i)
  case Nil
  then show ?case by simp
next
  case (Cons c cs)
  from Cons.prems have none: "m bol (c # cs) = None"
    by (auto split: option.splits)
  with Cons.prems have "re_search m (c = NL) (Suc i) cs = None"
    by simp
  then have "re_sub m f (c = NL) cs = cs"
    by (rule Cons.IH)
  with none show ?case by simp
qed

lemma re_search_imp:
  assumes "\<And>bol s. m bol s \<noteq> None \<Longrightarrow> Q s"
  shows "re_search m bol i s \<noteq> None \<Longrightarrow> \<exists>pre suf. s = pre @ suf \<and> Q suf"
proof (induction s arbitrary: bol i)
  case Nil
  then have "m bol [] \<noteq> None" by (auto split: option.splits)
  then have "Q []" by (rule assms)
  then show ?case by simp
next
  case (Cons c cs)
  show ?case
  proof (cases "m bol (c # cs)")
    case (Some a)
    then have "Q (c # cs)" using assms [of bol "c # cs"] by simp
    then show ?thesis by (intro exI [of _ "[]"] exI [of _ "c # cs"]) simp
  next
    case None
    with Cons.prems have "re_search m (c = NL) (Suc i) cs \<noteq> None" by simp
    then obtain pre suf where "cs = pre @ suf" "Q suf"
      using Cons.IH by blast
    then show ?thesis by (intro exI [of _ "c # pre"] exI [of _ suf]) simp
  qed
qed

lemma re_search_conv:
  assumes "\<And>bol s. Q s \<Longrightarrow> m bol s \<noteq> None"
  shows "s = pre @ suf \<Longrightarrow> Q suf \<Longrightarrow> re_search m bol i s \<noteq> None"
proof (induction pre arbitrary: s bol i)
  case Nil
  then have "m bol s \<noteq> None" using assms by simp
  then show ?case by (cases s) (auto split: option.splits)
next
  case (Cons c pre)
  then have s: "s = c # (pre @ suf)" by simp
  show ?case
  proof (cases "m bol s")
    case (Some a)
    with s show ?thesis by (cases a) simp
  next
    case None
    from Cons.IH [of "pre @ suf" "c = NL" "Suc i"] Cons.prems
    have "re_search m (c = NL) (Suc i) (pre @ suf) \<noteq> None" by simp
    with None s show ?thesis by simp
  qed
qed

lemma takeWhile_run:
  "list_all P ws \<Longrightarrow> r \<noteq> [] \<Longrightarrow> \<not> P (hd r) \<Longrightarrow> takeWhile P (ws @ r) = ws \<and> dropWhile P (ws @ r) = r"
  by (induction ws) (auto simp: neq_Nil_conv)

section \<open>Labels of code blocks\<close>

lemma m_fence_groups: "m_fence bol s = Some (gs, n) \<Longrightarrow> \<exists>lang code. gs = [lang, code]"
  by (auto simp: m_fence_def Let_def split: if_splits option.splits)

lemma re_findall_fence_shape:
  "gs \<in> set (re_findall m_fence bol s) \<Longrightarrow> \<exists>lang code. gs = [lang, code]"
proof (induction "m_fence" bol s rule: re_findall.induct)
  case (1 bol)
  then show ?case by simp
next
  case (2 bol c cs)
  show ?case
  proof (cases "m_fence bol (c # cs)")
    case None
    with 2 show ?thesis by simp
  next
    case (Some a)
    obtain hs k where a: "a = (hs, k)" by (cases a)
    show ?thesis
    proof (cases k)
      case 0
      with 2 Some a show ?thesis by simp
    next
      case (Suc n)
      with 2 Some a m_fence_groups [of bol "c # cs" hs k] show ?thesis
        by auto
    qed
  qed
qed

lemma extract_label: "(lang, code, label) \<in> set (extract_code_blocks s) \<Longrightarrow> label = label_of code"
  using re_findall_fence_shape [of _ True s]
  by (fastforce simp: extract_code_blocks_def)

lemma m_label_Some_iff:
  assumes "kw \<noteq> []" "\<not> is_space (hd kw)"
  shows "m_label kw bol s \<noteq> None \<longleftrightarrow>
         (bol \<and> (\<exists>ws suf. s = ''#'' @ ws @ kw @ suf \<and> list_all is_space ws))"
proof
  assume "m_label kw bol s \<noteq> None"
  then have b: bol and h: "startswith s ''#''"
    and k: "startswith (dropWhile is_space (drop 1 s)) kw"
    by (auto simp: m_label_def Let_def split: if_splits)
  from h have s: "s = ''#'' @ drop 1 s"
    by (cases s) (auto simp: startswith_def)
  from k have "dropWhile is_space (drop 1 s) = kw @ drop (length kw) (dropWhile is_space (drop 1 s))"
    by (metis append_take_drop_id startswith_def)
  then have "drop 1 s = takeWhile is_space (drop 1 s) @ kw @ drop (length kw) (dropWhile is_space (drop 1 s))"
    by (metis takeWhile_dropWhile_id)
  with s have "s = ''#'' @ takeWhile is_space (drop 1 s) @ kw @ drop (length kw) (dropWhile is_space (drop 1 s))"
    by metis
  moreover have "list_all is_space (takeWhile is_space (drop 1 s))"
    by (simp add: list_all_iff) (meson set_takeWhileD)
  ultimately show "bol \<and> (\<exists>ws suf. s = ''#'' @ ws @ kw @ suf \<and> list_all is_space ws)"
    using b by blast
next
  assume "bol \<and> (\<exists>ws suf. s = ''#'' @ ws @ kw @ suf \<and> list_all is_space ws)"
  then obtain ws suf where b: bol and s: "s = ''#'' @ ws @ kw @ suf" and w: "list_all is_space ws"
    by blast
  from assms have "kw @ suf \<noteq> []" "\<not> is_space (hd (kw @ suf))"
    by auto
  from takeWhile_run [OF w this] have "dropWhile is_space (ws @ kw @ suf) = kw @ suf"
    by simp
  with b s show "m_label kw bol s \<noteq> None"
    by (simp add: m_label_def Let_def startswith_def)
qed

lemma label_search_iff:
  assumes "kw \<noteq> []" "\<not> is_space (hd kw)"
  shows "re_search (m_label kw) bol i code \<noteq> None \<longleftrightarrow>
         (\<exists>pre ws suf. code = pre @ ''#'' @ ws @ kw @ suf \<and>
            (if pre = [] then bol else last pre = NL) \<and> list_all is_space ws)"
proof (induction code arbitrary: bol i)
  case Nil
  have "m_label kw bol [] = None"
    by (simp add: m_label_def startswith_def)
  then show ?case by simp
next
  case (Cons c cs)
  show ?case
  proof (cases "m_label kw bol (c # cs)")
    case (Some a)
    then have "m_label kw bol (c # cs) \<noteq> None" by simp
    then obtain ws suf where "bol" "c # cs = ''#'' @ ws @ kw @ suf" "list_all is_space ws"
      using m_label_Some_iff [OF assms] by blast
    then have "\<exists>pre ws suf. c # cs = pre @ ''#'' @ ws @ kw @ suf \<and>
            (if pre = [] then bol else last pre = NL) \<and> list_all is_space ws"
      by (intro exI [of _ "[]"] exI [of _ ws] exI [of _ suf]) simp
    moreover from Some have "re_search (m_label kw) bol i (c # cs) \<noteq> None"
      by (cases a) simp
    ultimately show ?thesis by blast
  next
    case None
    then have step: "re_search (m_label kw) bol i (c # cs) = re_search (m_label kw) (c = NL) (Suc i) cs"
      by simp
    have "(\<exists>pre ws suf. c # cs = pre @ ''#'' @ ws @ kw @ suf \<and>
            (if pre = [] then bol else last pre = NL) \<and> list_all is_space ws) \<longleftrightarrow>
          (\<exists>pre ws suf. cs = pre @ ''#'' @ ws @ kw @ suf \<and>
            (if pre = [] then c = NL else last pre = NL) \<and> list_all is_space ws)"
      (is "?L \<longleftrightarrow> ?R")
    proof
      assume ?L
      then obtain pre ws suf where d: "c # cs = pre @ ''#'' @ ws @ kw @ suf"
        and p: "if pre = [] then bol else last pre = NL" and w: "list_all is_space ws"
        by blast
      have "pre \<noteq> []"
      proof
        assume "pre = []"
        with d p w have "m_label kw bol (c # cs) \<noteq> None"
          using m_label_Some_iff [OF assms, of bol "c # cs"] by auto
        with None show False by simp
      qed
      then obtain pre' where pre: "pre = c # pre'" and cs: "cs = pre' @ ''#'' @ ws @ kw @ suf"
        using d by (cases pre) auto
      from p pre have "if pre' = [] then c = NL else last pre' = NL"
        by (auto split: if_splits)
      with cs w show ?R by blast
    next
      assume ?R
      then obtain pre ws suf where cs: "cs = pre @ ''#'' @ ws @ kw @ suf"
        and p: "if pre = [] then c = NL else last pre = NL" and w: "list_all is_space ws"
        by blast
      from cs have "c # cs = (c # pre) @ ''#'' @ ws @ kw @ suf" by simp
      moreover from p have "if c # pre = [] then bol else last (c # pre) = NL"
        by (auto split: if_splits)
      ultimately show ?L using w by blast
    qed
    with step Cons.IH [of "c = NL" "Suc i"] show ?thesis by simp
  qed
qed

lemma search_marker_line:
  "kw \<noteq> [] \<Longrightarrow> \<not> is_space (hd kw) \<Longrightarrow>
   re_search (m_label kw) True 0 code \<noteq> None \<longleftrightarrow> marker_line kw code"
  unfolding marker_line_def label_search_iff
  by (metis (full_types))

lemma is_space_B: "\<not> is_space (hd ''BEFORE:'')" "\<not> is_space (hd ''AFTER:'')"
  by (simp_all add: is_space_def)

lemma label_of_cases:
  "label_of code =
     (if marker_line ''BEFORE:'' code then ''BEFORE''
      else if marker_line ''AFTER:'' code then ''AFTER'' else [])"
  using search_marker_line [of "''BEFORE:''" code] search_marker_line [of "''AFTER:''" code]
    is_space_B
  by (simp add: label_of_def Let_def)

lemma doc_both_markers_blocks:
  "extract_code_blocks doc_both_markers =
     [(''python'', ''# AFTER: b'' @ [NL] @ ''# BEFORE: a'' @ [NL], ''BEFORE'')]"
  by code_simp

lemma both_before: "marker_line ''BEFORE:'' (''# AFTER: b'' @ [NL] @ ''# BEFORE: a'' @ [NL])"
  unfolding marker_line_def
  by (intro exI [of _ "''# AFTER: b'' @ [NL]"] exI [of _ "'' ''"] exI [of _ "'' a'' @ [NL]"])
     (simp add: is_space_def)

lemma both_after: "marker_line ''AFTER:'' (''# AFTER: b'' @ [NL] @ ''# BEFORE: a'' @ [NL])"
  unfolding marker_line_def
  by (intro exI [of _ "[]"] exI [of _ "'' ''"] exI [of _ "'' b'' @ [NL] @ ''# BEFORE: a'' @ [NL]"])
     (simp add: is_space_def)

text \<open>
  C5 at a failing input. The block of \<open>doc_note_then_marker\<close> has the comment
  \<open># note\<close> on its first line, which is also its first comment line, and
  \<open># BEFORE: y\<close> on its third. Read from the first line the label is empty;
  \<open>extract_code_blocks\<close> searches every line and returns \<open>BEFORE\<close>.
\<close>

theorem label_taken_from_later_line:
  "extract_code_blocks doc_note_then_marker =
     [(''python'', ''# note'' @ [NL] @ ''x = 1'' @ [NL] @ ''# BEFORE: y'' @ [NL], ''BEFORE'')] \<and>
   first_line_label (''# note'' @ [NL] @ ''x = 1'' @ [NL] @ ''# BEFORE: y'' @ [NL]) = []"
proof -
  have "extract_code_blocks doc_note_then_marker =
     [(''python'', ''# note'' @ [NL] @ ''x = 1'' @ [NL] @ ''# BEFORE: y'' @ [NL], ''BEFORE'')]"
    by code_simp
  moreover have "first_line_label (''# note'' @ [NL] @ ''x = 1'' @ [NL] @ ''# BEFORE: y'' @ [NL]) = []"
    by code_simp
  ultimately show ?thesis by simp
qed

text \<open>
  C10. A block in which one line carries the \<open>BEFORE:\<close> marker and one the \<open>AFTER:\<close>
  marker is labelled \<open>BEFORE\<close>: the test for \<open>BEFORE\<close> comes first, and a block has
  one label.
\<close>

theorem before_takes_precedence:
  assumes "(lang, code, label) \<in> set (extract_code_blocks s)"
    and "marker_line ''BEFORE:'' code" and "marker_line ''AFTER:'' code"
  shows "label = ''BEFORE''"
proof -
  from assms(1) have "label = label_of code"
    by (rule extract_label)
  with assms(2) show ?thesis
    by (simp add: label_of_cases)
qed

theorem before_takes_precedence_witness:
  "(''python'', ''# AFTER: b'' @ [NL] @ ''# BEFORE: a'' @ [NL],
      label_of (''# AFTER: b'' @ [NL] @ ''# BEFORE: a'' @ [NL]))
     \<in> set (extract_code_blocks doc_both_markers) \<and>
   marker_line ''BEFORE:'' (''# AFTER: b'' @ [NL] @ ''# BEFORE: a'' @ [NL]) \<and>
   marker_line ''AFTER:'' (''# AFTER: b'' @ [NL] @ ''# BEFORE: a'' @ [NL]) \<and>
   label_of (''# AFTER: b'' @ [NL] @ ''# BEFORE: a'' @ [NL]) = ''BEFORE''"
proof -
  have mem: "(''python'', ''# AFTER: b'' @ [NL] @ ''# BEFORE: a'' @ [NL],
      label_of (''# AFTER: b'' @ [NL] @ ''# BEFORE: a'' @ [NL]))
     \<in> set (extract_code_blocks doc_both_markers)"
    unfolding doc_both_markers_blocks by code_simp
  from before_takes_precedence [OF mem both_before both_after] mem both_before both_after
  show ?thesis by simp
qed

section \<open>Verification of a code block\<close>

text \<open>
  C7, as the code has it. For code with a marker of the AI-call framework
  (\<open>mirascope\<close>, \<open>@llm.call\<close> or \<open>@prompt_template\<close>), \<open>verify_python_code\<close> only calls
  \<open>compile\<close>: no temporary file, no subprocess, the world is unchanged. It returns
  true when \<open>compile\<close> returns and false when \<open>compile\<close> raises \<open>SyntaxError\<close>; any
  other exception of \<open>compile\<close> is not caught and leaves the function.
\<close>

theorem marker_code_compile_only:
  "has_marker code \<Longrightarrow>
   verify_python_code e w code =
     (w, case builtin_compile e code of
           Compiled \<Rightarrow> Inr True
         | SyntaxError \<Rightarrow> Inr False
         | CompileRaised \<Rightarrow> Inl CompileError)"
  by (simp add: verify_python_code_def split: compile_outcome.split)

lemma marker_samples:
  "has_marker ''import mirascope''" "has_marker ''import mirascope(''"
  by code_simp+

theorem marker_code_compile_only_witness:
  "has_marker ''import mirascope'' \<and> has_marker ''import mirascope('' \<and>
   verify_python_code env_demo world0 ''import mirascope'' = (world0, Inr True) \<and>
   verify_python_code env_demo world0 ''import mirascope('' = (world0, Inr False) \<and>
   verify_python_code env_compile_raises world0 ''import mirascope'' = (world0, Inl CompileError)"
proof -
  have c1: "builtin_compile env_demo ''import mirascope'' = Compiled" by code_simp
  have c2: "builtin_compile env_demo ''import mirascope('' = SyntaxError" by code_simp
  have c3: "builtin_compile env_compile_raises ''import mirascope'' = CompileRaised"
    by (simp add: env_compile_raises_def)
  from marker_code_compile_only [OF marker_samples(1), of env_demo world0]
    marker_code_compile_only [OF marker_samples(2), of env_demo world0]
    marker_code_compile_only [OF marker_samples(1), of env_compile_raises world0]
    marker_samples c1 c2 c3
  show ?thesis by simp
qed

text \<open>
  The claim C7 as stated has the function return a truth value for every code with a
  marker. Where \<open>compile\<close> raises an exception other than \<open>SyntaxError\<close> it returns
  none.
\<close>

theorem marker_code_returns_bool_counterexample:
  "\<not> (\<forall>e w code. has_marker code \<longrightarrow> (\<exists>b. snd (verify_python_code e w code) = Inr b))"
proof
  assume "\<forall>e w code. has_marker code \<longrightarrow> (\<exists>b. snd (verify_python_code e w code) = Inr b)"
  with marker_samples(1)
  have "\<exists>b. snd (verify_python_code env_compile_raises world0 ''import mirascope'') = Inr b"
    by blast
  moreover have "snd (verify_python_code env_compile_raises world0 ''import mirascope'') =
      Inl CompileError"
    using marker_samples(1) by (simp add: verify_python_code_def env_compile_raises_def)
  ultimately show False by simp
qed

lemma fst_le_foldr_max: "(q, t) \<in> set fs \<Longrightarrow> q \<le> foldr max (map fst fs) (0::nat)"
  by (induction fs) auto

lemma unlink_fresh:
  "tmp_files (unlink (fresh_tmp w) ((write_tmp (fresh_tmp w) code w)\<lparr>py_compile_calls := cs\<rparr>)) = tmp_files w"
proof -
  have "filter (\<lambda>(q, t). q \<noteq> fresh_tmp w) (tmp_files w) = tmp_files w"
    unfolding fresh_tmp_def filter_id_conv
    using fst_le_foldr_max [of _ _ "tmp_files w"] by fastforce
  then show ?thesis
    by (simp add: unlink_def write_tmp_def)
qed

text \<open>
  Once the code is written, the temporary file is removed on the three ways out of
  the \<open>try\<close>: the temporary files are those that existed before.
\<close>

lemma temp_file_removed_after_write:
  assumes "\<not> has_marker code" and "tmp_write e code = Written"
  shows "tmp_files (fst (verify_python_code e w code)) = tmp_files w \<and>
         snd (verify_python_code e w code) =
           (case run_py_compile e code of
              Exit0 \<Rightarrow> Inr True | NonZero \<Rightarrow> Inr False | NotStarted \<Rightarrow> Inl SubprocessError)"
  using assms unlink_fresh
  by (simp add: verify_python_code_def Let_def split: run_outcome.split)

text \<open>
  C9 at a failing input. \<open>code_latin1\<close> has no marker and holds a character that the
  locale of \<open>env_ascii\<close> cannot encode: the write inside the \<open>with\<close> block raises
  before the \<open>try\<close> is entered, \<open>os.unlink\<close> never runs, and the file created with
  \<open>delete=False\<close> stays.
\<close>

theorem temp_file_left_when_write_fails:
  "\<not> has_marker code_latin1 \<and> tmp_write env_ascii code_latin1 = WriteRaised \<and>
   verify_python_code env_ascii world0 code_latin1 =
     (world0\<lparr>tmp_files := [(1, [])]\<rparr>, Inl TempFileError)"
proof -
  have m: "\<not> has_marker code_latin1" by code_simp
  have t: "tmp_write env_ascii code_latin1 = WriteRaised" by code_simp
  have "verify_python_code env_ascii world0 code_latin1 =
     (world0\<lparr>tmp_files := [(1, [])]\<rparr>, Inl TempFileError)"
    using m t by (simp add: verify_python_code_def Let_def write_tmp_def fresh_tmp_def world0_def)
  with m t show ?thesis by simp
qed

section \<open>The document-level results\<close>

lemma verify_result:
  "snd (verify_python_code e w code) =
     (if has_marker code
      then (case builtin_compile e code of
              Compiled \<Rightarrow> Inr True | SyntaxError \<Rightarrow> Inr False | CompileRaised \<Rightarrow> Inl CompileError)
      else (case tmp_write e code of
              NotCreated \<Rightarrow> Inl TempFileError
            | WriteRaised \<Rightarrow> Inl TempFileError
            | Written \<Rightarrow>
                (case run_py_compile e code of
                   Exit0 \<Rightarrow> Inr True | NonZero \<Rightarrow> Inr False | NotStarted \<Rightarrow> Inl SubprocessError)))"
  by (simp add: verify_python_code_def Let_def
      split: run_outcome.split write_outcome.split compile_outcome.split)

lemma verify_result_world: "snd (verify_python_code e w code) = snd (verify_python_code e w0 code)"
  by (simp add: verify_result)

lemma verification_raises_world: "verification_raises e w code = verification_raises e w0 code"
  by (simp add: verification_raises_def verify_result)

lemma verify_world:
  assumes "\<not> verification_raises e w code"
  shows "fst (verify_python_code e w code) =
     (if has_marker code then w else w\<lparr>py_compile_calls := py_compile_calls w @ [code]\<rparr>)"
proof (cases "has_marker code")
  case True
  then show ?thesis
    by (simp add: verify_python_code_def split: compile_outcome.split)
next
  case False
  have f: "filter (\<lambda>(q, t). q \<noteq> fresh_tmp w) (tmp_files w) = tmp_files w"
    unfolding fresh_tmp_def filter_id_conv
    using fst_le_foldr_max [of _ _ "tmp_files w"] by fastforce
  from assms False have "tmp_write e code = Written"
    by (cases "tmp_write e code") (simp_all add: verification_raises_def verify_result)
  with False f show ?thesis
    by (simp add: verify_python_code_def Let_def unlink_def write_tmp_def split: run_outcome.split)
qed

lemma is_python_triple: "is_python (lang, code, label) = (lower lang = ''python'')"
  by (simp add: is_python_def)

lemma verify_blocks_runs:
  assumes "list_all (\<lambda>b. \<not> verification_raises e w0 (block_code b)) (filter is_python bs)"
  shows "\<exists>w'. verify_blocks e w bs v =
           (w', Inr (v \<and> list_all (\<lambda>b. snd (verify_python_code e w0 (block_code b)) = Inr True)
                           (filter is_python bs))) \<and>
         py_compile_calls w' = py_compile_calls w @
           filter (\<lambda>code. \<not> has_marker code) (map block_code (filter is_python bs)) \<and>
         tmp_files w' = tmp_files w"
  using assms
proof (induction bs arbitrary: w v)
  case Nil
  then show ?case by simp
next
  case (Cons b bs)
  obtain lang code label where b: "b = (lang, code, label)"
    by (cases b)
  show ?case
  proof (cases "lower lang = ''python''")
    case False
    with b Cons.prems have "list_all (\<lambda>b. \<not> verification_raises e w0 (block_code b))
        (filter is_python bs)"
      by (simp add: is_python_triple)
    from Cons.IH [OF this, of w v] False b show ?thesis
      by (simp add: is_python_triple)
  next
    case True
    with b Cons.prems have nr0: "\<not> verification_raises e w0 code"
      and rest: "list_all (\<lambda>b. \<not> verification_raises e w0 (block_code b)) (filter is_python bs)"
      by (simp_all add: is_python_triple block_code_def)
    from nr0 have nr: "\<not> verification_raises e w code"
      using verification_raises_world [of e w code w0] by simp
    obtain w1 r where vr: "verify_python_code e w code = (w1, r)"
      by (cases "verify_python_code e w code")
    from vr have r: "r = snd (verify_python_code e w0 code)"
      using verify_result_world [of e w code w0] by simp
    from nr vr obtain ok where ok: "r = Inr ok"
      by (cases r) (simp_all add: verification_raises_def)
    from vr have w1: "w1 = (if has_marker code then w else w\<lparr>py_compile_calls := py_compile_calls w @ [code]\<rparr>)"
      using verify_world [OF nr] by simp
    from Cons.IH [OF rest, of w1 "if \<not> ok then False else v"] obtain w' where
      run: "verify_blocks e w1 bs (if \<not> ok then False else v) =
           (w', Inr ((if \<not> ok then False else v) \<and>
              list_all (\<lambda>b. snd (verify_python_code e w0 (block_code b)) = Inr True)
                           (filter is_python bs)))"
      and calls: "py_compile_calls w' = py_compile_calls w1 @
           filter (\<lambda>code. \<not> has_marker code) (map block_code (filter is_python bs))"
      and tmp: "tmp_files w' = tmp_files w1"
      by blast
    from True b vr ok run have "verify_blocks e w (b # bs) v =
           (w', Inr ((if \<not> ok then False else v) \<and>
              list_all (\<lambda>b. snd (verify_python_code e w0 (block_code b)) = Inr True)
                           (filter is_python bs)))"
      by simp
    moreover from r ok have "snd (verify_python_code e w0 code) = Inr True \<longleftrightarrow> ok"
      by auto
    ultimately have "verify_blocks e w (b # bs) v =
           (w', Inr (v \<and> list_all (\<lambda>b. snd (verify_python_code e w0 (block_code b)) = Inr True)
                           (filter is_python (b # bs))))"
      using True b by (auto simp: is_python_triple block_code_def)
    moreover from calls w1 True b have "py_compile_calls w' = py_compile_calls w @
           filter (\<lambda>code. \<not> has_marker code) (map block_code (filter is_python (b # bs)))"
      by (simp add: is_python_triple block_code_def)
    moreover from tmp w1 have "tmp_files w' = tmp_files w"
      by (simp split: if_splits)
    ultimately show ?thesis by blast
  qed
qed

lemma verify_blocks_returns:
  "verify_blocks e w bs v = (w', Inr r) \<Longrightarrow>
   list_all (\<lambda>b. \<not> verification_raises e w0 (block_code b)) (filter is_python bs)"
proof (induction bs arbitrary: w v)
  case Nil
  then show ?case by simp
next
  case (Cons b bs)
  obtain lang code label where b: "b = (lang, code, label)"
    by (cases b)
  show ?case
  proof (cases "lower lang = ''python''")
    case False
    with b Cons.prems have "verify_blocks e w bs v = (w', Inr r)" by simp
    from Cons.IH [OF this] False b show ?thesis
      by (simp add: is_python_triple)
  next
    case True
    obtain w1 r1 where vr: "verify_python_code e w code = (w1, r1)"
      by (cases "verify_python_code e w code")
    show ?thesis
    proof (cases r1)
      case (Inl err)
      with True b vr Cons.prems show ?thesis by simp
    next
      case (Inr ok)
      with True b vr Cons.prems
      have "verify_blocks e w1 bs (if \<not> ok then False else v) = (w', Inr r)" by simp
      then have "list_all (\<lambda>b. \<not> verification_raises e w0 (block_code b)) (filter is_python bs)"
        by (rule Cons.IH)
      moreover from vr Inr have "\<not> verification_raises e w code"
        by (simp add: verification_raises_def)
      then have "\<not> verification_raises e w0 code"
        using verification_raises_world [of e w code w0] by simp
      ultimately show ?thesis
        using True b by (simp add: is_python_triple block_code_def)
    qed
  qed
qed

lemma process_markdown_file_runs:
  assumes "list_all (\<lambda>b. \<not> verification_raises e w0 (block_code b))
             (filter is_python (extract_code_blocks content))"
  shows "\<exists>w' pd. process_markdown_file e w stem (Some content) = (w', Inr pd) \<and>
           code_blocks pd = extract_code_blocks content \<and>
           clean_content pd = clean_for_social content \<and>
           verified pd = list_all (\<lambda>b. snd (verify_python_code e w0 (block_code b)) = Inr True)
                           (filter is_python (extract_code_blocks content)) \<and>
           py_compile_calls w' = py_compile_calls w @
             filter (\<lambda>code. \<not> has_marker code)
               (map block_code (filter is_python (extract_code_blocks content))) \<and>
           tmp_files w' = tmp_files w"
proof -
  from verify_blocks_runs [OF assms, where w = w and v = True]
  obtain w' where
    run: "verify_blocks e w (extract_code_blocks content) True =
           (w', Inr (list_all (\<lambda>b. snd (verify_python_code e w0 (block_code b)) = Inr True)
                           (filter is_python (extract_code_blocks content))))"
    and calls: "py_compile_calls w' = py_compile_calls w @
           filter (\<lambda>code. \<not> has_marker code)
             (map block_code (filter is_python (extract_code_blocks content)))"
    and rest: "tmp_files w' = tmp_files w"
    by auto
  from run calls rest show ?thesis
    by (auto simp: process_markdown_file_def Let_def split: option.splits)
qed

lemma process_markdown_file_returns:
  assumes "process_markdown_file e w stem (Some content) = (w', Inr pd)"
  shows "list_all (\<lambda>b. \<not> verification_raises e w0 (block_code b))
           (filter is_python (extract_code_blocks content)) \<and>
         ((re_search m_solution True 0 content = None \<or>
           re_search m_takeaway True 0 content = None) \<longrightarrow>
          solution pd = [] \<and> takeaway pd = [])"
proof -
  obtain w1 r where vb: "verify_blocks e w (extract_code_blocks content) True = (w1, r)"
    by (cases "verify_blocks e w (extract_code_blocks content) True")
  show ?thesis
  proof (cases r)
    case (Inl err)
    with vb assms show ?thesis
      by (simp add: process_markdown_file_def Let_def)
  next
    case (Inr ver)
    with vb have "list_all (\<lambda>b. \<not> verification_raises e w0 (block_code b))
           (filter is_python (extract_code_blocks content))"
      using verify_blocks_returns [where e = e and w = w and bs = "extract_code_blocks content" and v = True
        and w' = w1 and r = ver and ?w0.0 = w0] by simp
    moreover from vb Inr assms have "(re_search m_solution True 0 content = None \<or>
           re_search m_takeaway True 0 content = None) \<longrightarrow>
          solution pd = [] \<and> takeaway pd = []"
      by (auto simp: process_markdown_file_def Let_def split: option.splits)
    ultimately show ?thesis by simp
  qed
qed

lemma m_words_Some_iff:
  assumes "name \<noteq> []" "\<not> is_space (hd name)"
  shows "m_words name s \<noteq> None \<longleftrightarrow>
         (\<exists>ws suf. s = ''###'' @ ws @ name @ suf \<and> ws \<noteq> [] \<and> list_all is_space ws)"
proof
  assume "m_words name s \<noteq> None"
  then have h: "startswith s ''###''" and w: "takeWhile is_space (drop 3 s) \<noteq> []"
    and k: "startswith (dropWhile is_space (drop 3 s)) name"
    by (auto simp: m_words_def Let_def split: if_splits)
  from h have "take 3 s = ''###''"
    by (simp add: startswith_def numeral_3_eq_3)
  with append_take_drop_id [of 3 s] have s: "s = ''###'' @ drop 3 s"
    by simp
  from k have "dropWhile is_space (drop 3 s) = name @ drop (length name) (dropWhile is_space (drop 3 s))"
    by (metis append_take_drop_id startswith_def)
  then have "drop 3 s = takeWhile is_space (drop 3 s) @ name @ drop (length name) (dropWhile is_space (drop 3 s))"
    by (metis takeWhile_dropWhile_id)
  with s have "s = ''###'' @ takeWhile is_space (drop 3 s) @ name @ drop (length name) (dropWhile is_space (drop 3 s))"
    by metis
  moreover have "list_all is_space (takeWhile is_space (drop 3 s))"
    by (simp add: list_all_iff) (meson set_takeWhileD)
  ultimately show "\<exists>ws suf. s = ''###'' @ ws @ name @ suf \<and> ws \<noteq> [] \<and> list_all is_space ws"
    using w by blast
next
  assume "\<exists>ws suf. s = ''###'' @ ws @ name @ suf \<and> ws \<noteq> [] \<and> list_all is_space ws"
  then obtain ws suf where s: "s = ''###'' @ ws @ name @ suf" and n: "ws \<noteq> []"
    and w: "list_all is_space ws"
    by blast
  from assms have "name @ suf \<noteq> []" "\<not> is_space (hd (name @ suf))"
    by auto
  from takeWhile_run [OF w this] have "takeWhile is_space (ws @ name @ suf) = ws"
    "dropWhile is_space (ws @ name @ suf) = name @ suf"
    by simp_all
  with s n show "m_words name s \<noteq> None"
    by (simp add: m_words_def Let_def startswith_def)
qed

lemma heading_present_iff:
  assumes "name \<noteq> []" "\<not> is_space (hd name)"
  shows "heading_present name content \<longleftrightarrow>
         (\<exists>pre suf. content = pre @ suf \<and> m_words name suf \<noteq> None)"
proof
  assume "heading_present name content"
  then obtain pre ws suf where "content = pre @ ''###'' @ ws @ name @ suf" "ws \<noteq> []"
    "list_all is_space ws"
    unfolding heading_present_def by blast
  then have "content = pre @ (''###'' @ ws @ name @ suf) \<and>
      m_words name (''###'' @ ws @ name @ suf) \<noteq> None"
    using m_words_Some_iff [OF assms, of "''###'' @ ws @ name @ suf"] by blast
  then show "\<exists>pre suf. content = pre @ suf \<and> m_words name suf \<noteq> None"
    by blast
next
  assume "\<exists>pre suf. content = pre @ suf \<and> m_words name suf \<noteq> None"
  then obtain pre suf where c: "content = pre @ suf" and "m_words name suf \<noteq> None"
    by blast
  then obtain ws suf' where "suf = ''###'' @ ws @ name @ suf'" "ws \<noteq> []" "list_all is_space ws"
    using m_words_Some_iff [OF assms, of suf] by blast
  with c show "heading_present name content"
    unfolding heading_present_def by blast
qed

lemma not_space_T: "\<not> is_space (hd ''The Solution'')" "\<not> is_space (hd ''The Takeaway'')"
  by (simp_all add: is_space_def)

lemma solution_match_present:
  "re_search m_solution bol i content \<noteq> None \<Longrightarrow> heading_present ''The Solution'' content"
proof -
  assume a: "re_search m_solution bol i content \<noteq> None"
  have "\<And>bol s. m_solution bol s \<noteq> None \<Longrightarrow> m_words ''The Solution'' s \<noteq> None"
    by (auto simp: m_solution_def split: option.splits)
  from re_search_imp [of m_solution "\<lambda>s. m_words ''The Solution'' s \<noteq> None", OF this a]
  have "\<exists>pre suf. content = pre @ suf \<and> m_words ''The Solution'' suf \<noteq> None" .
  then show ?thesis
    using heading_present_iff [of "''The Solution''" content] not_space_T by simp
qed

lemma takeaway_match_present:
  "re_search m_takeaway bol i content \<noteq> None \<longleftrightarrow> heading_present ''The Takeaway'' content"
proof -
  have eq: "\<And>bol s. m_takeaway bol s \<noteq> None \<longleftrightarrow> m_words ''The Takeaway'' s \<noteq> None"
    by (auto simp: m_takeaway_def split: option.splits)
  have "re_search m_takeaway bol i content \<noteq> None \<longleftrightarrow>
        (\<exists>pre suf. content = pre @ suf \<and> m_words ''The Takeaway'' suf \<noteq> None)"
  proof
    assume "re_search m_takeaway bol i content \<noteq> None"
    then show "\<exists>pre suf. content = pre @ suf \<and> m_words ''The Takeaway'' suf \<noteq> None"
      by (rule re_search_imp [rotated]) (use eq in blast)
  next
    assume "\<exists>pre suf. content = pre @ suf \<and> m_words ''The Takeaway'' suf \<noteq> None"
    then obtain pre suf where c: "content = pre @ suf"
      and m: "m_words ''The Takeaway'' suf \<noteq> None"
      by blast
    show "re_search m_takeaway bol i content \<noteq> None"
      by (rule re_search_conv [where Q = "\<lambda>s. m_words ''The Takeaway'' s \<noteq> None", OF _ c m])
         (use eq in blast)
  qed
  then show ?thesis
    using heading_present_iff [of "''The Takeaway''" content] not_space_T by simp
qed

lemma doc_two_blocks_no_takeaway: "re_search m_takeaway True 0 doc_two_blocks = None"
  by code_simp

lemma doc_two_blocks_python:
  "filter is_python (extract_code_blocks doc_two_blocks) =
     [(''python'', ''x = ('' @ [NL], []), (''Python'', ''y = 1'' @ [NL], [])]"
  by code_simp

lemma env_demo_no_raise: "\<not> verification_raises env_demo w code"
  by (simp add: verification_raises_def verify_result env_demo_def)

lemma env_demo_blocks: "list_all (\<lambda>b. \<not> verification_raises env_demo w (block_code b)) bs"
  by (simp add: list_all_iff env_demo_no_raise)

lemma doc_two_blocks_no_python:
  "snd (process_markdown_file env_no_python world0 ''tip'' (Some doc_two_blocks)) =
     Inl SubprocessError"
  by code_simp

text \<open>
  C6, as the code has it. When the text has no \<open>### The Solution\<close> heading or no
  \<open>### The Takeaway\<close> heading, every result \<open>process_markdown_file\<close> returns has the
  empty string in both the \<open>solution\<close> and the \<open>takeaway\<close> field, and it returns a
  result exactly when the verification of none of the Python blocks of the document
  raises: an exception of \<open>verify_python_code\<close> is not caught, whatever the headings.
  The file exists.
\<close>

theorem missing_heading_empty_sections_unless_raise:
  assumes "\<not> heading_present ''The Solution'' content \<or> \<not> heading_present ''The Takeaway'' content"
  shows "(\<forall>w' pd. process_markdown_file e w stem (Some content) = (w', Inr pd) \<longrightarrow>
            solution pd = [] \<and> takeaway pd = []) \<and>
         ((\<exists>w' pd. process_markdown_file e w stem (Some content) = (w', Inr pd)) \<longleftrightarrow>
          list_all (\<lambda>b. \<not> verification_raises e w (block_code b))
            (filter is_python (extract_code_blocks content)))"
proof -
  from assms have absent: "re_search m_solution True 0 content = None \<or>
      re_search m_takeaway True 0 content = None"
    using solution_match_present [of True 0 content] takeaway_match_present [of True 0 content]
    by blast
  have "\<forall>w' pd. process_markdown_file e w stem (Some content) = (w', Inr pd) \<longrightarrow>
            solution pd = [] \<and> takeaway pd = []"
    using process_markdown_file_returns [where e = e and w = w and stem = stem and content = content
        and ?w0.0 = w] absent by blast
  moreover have "(\<exists>w' pd. process_markdown_file e w stem (Some content) = (w', Inr pd)) \<longleftrightarrow>
          list_all (\<lambda>b. \<not> verification_raises e w (block_code b))
            (filter is_python (extract_code_blocks content))"
    using process_markdown_file_returns [where e = e and w = w and stem = stem and content = content
        and ?w0.0 = w]
      process_markdown_file_runs [where e = e and w = w and stem = stem and content = content
        and ?w0.0 = w] by blast
  ultimately show ?thesis by blast
qed

theorem missing_heading_empty_sections_unless_raise_witness:
  "heading_present ''The Solution'' doc_two_blocks \<and>
   \<not> heading_present ''The Takeaway'' doc_two_blocks \<and>
   list_all (\<lambda>b. \<not> verification_raises env_demo world0 (block_code b))
     (filter is_python (extract_code_blocks doc_two_blocks)) \<and>
   (\<exists>w' pd. process_markdown_file env_demo world0 ''tip'' (Some doc_two_blocks) = (w', Inr pd) \<and>
      solution pd = [] \<and> takeaway pd = [])"
proof -
  have t: "\<not> heading_present ''The Takeaway'' doc_two_blocks"
    using takeaway_match_present [of True 0 doc_two_blocks] doc_two_blocks_no_takeaway by simp
  have "re_search m_solution True 0 doc_two_blocks \<noteq> None"
    by code_simp
  then have s: "heading_present ''The Solution'' doc_two_blocks"
    by (rule solution_match_present)
  from t have "\<not> heading_present ''The Solution'' doc_two_blocks \<or>
      \<not> heading_present ''The Takeaway'' doc_two_blocks" by simp
  from missing_heading_empty_sections_unless_raise [OF this, of env_demo world0 "''tip''"]
    env_demo_blocks [of world0 "filter is_python (extract_code_blocks doc_two_blocks)"] t s
  show ?thesis by blast
qed

text \<open>
  The claim C6 as stated fails: \<open>doc_two_blocks\<close> has no takeaway heading, and where
  \<open>python\<close> cannot be started the verification of its first block raises, and so does
  \<open>process_markdown_file\<close>.
\<close>

theorem missing_heading_never_error_counterexample:
  "\<not> (\<forall>e w stem content.
        \<not> heading_present ''The Solution'' content \<or> \<not> heading_present ''The Takeaway'' content \<longrightarrow>
        (\<exists>w' pd. process_markdown_file e w stem (Some content) = (w', Inr pd) \<and>
           solution pd = [] \<and> takeaway pd = []))"
proof
  assume a: "\<forall>e w stem content.
        \<not> heading_present ''The Solution'' content \<or> \<not> heading_present ''The Takeaway'' content \<longrightarrow>
        (\<exists>w' pd. process_markdown_file e w stem (Some content) = (w', Inr pd) \<and>
           solution pd = [] \<and> takeaway pd = [])"
  have "\<not> heading_present ''The Takeaway'' doc_two_blocks"
    using takeaway_match_present [of True 0 doc_two_blocks] doc_two_blocks_no_takeaway by simp
  with a have "\<exists>w' pd. process_markdown_file env_no_python world0 ''tip'' (Some doc_two_blocks) =
      (w', Inr pd)"
    by blast
  with doc_two_blocks_no_python show False by auto
qed

text \<open>
  C8, as the code has it. When the verification of none of the Python blocks of the
  document raises, \<open>process_markdown_file\<close> returns a full result whose flag
  \<open>verified\<close> is the conjunction of the results of \<open>verify_python_code\<close> over the
  blocks whose language is \<open>python\<close> in any case (the result of a block does not depend
  on the world it runs in). A block that fails does not stop the loop: every such
  block without a marker reaches the subprocess, in order.
\<close>

theorem verified_is_conjunction_unless_raise:
  assumes "list_all (\<lambda>b. \<not> verification_raises e w (block_code b))
             (filter is_python (extract_code_blocks content))"
  shows "\<exists>w' pd. process_markdown_file e w stem (Some content) = (w', Inr pd) \<and>
           verified pd = list_all (\<lambda>b. snd (verify_python_code e w (block_code b)) = Inr True)
                           (filter is_python (extract_code_blocks content)) \<and>
           py_compile_calls w' = py_compile_calls w @
             filter (\<lambda>code. \<not> has_marker code)
               (map block_code (filter is_python (extract_code_blocks content)))"
  using process_markdown_file_runs [OF assms, where w = w and stem = stem]
  by blast

theorem verified_is_conjunction_unless_raise_witness:
  "list_all (\<lambda>b. \<not> verification_raises env_demo world0 (block_code b))
     (filter is_python (extract_code_blocks doc_two_blocks)) \<and>
   snd (verify_python_code env_demo world0 (''x = ('' @ [NL])) = Inr False \<and>
   snd (verify_python_code env_demo world0 (''y = 1'' @ [NL])) = Inr True \<and>
   (\<exists>w' pd. process_markdown_file env_demo world0 ''tip'' (Some doc_two_blocks) = (w', Inr pd) \<and>
      verified pd = False \<and>
      py_compile_calls w' = [''x = ('' @ [NL], ''y = 1'' @ [NL]])"
proof -
  note e = env_demo_blocks [of world0 "filter is_python (extract_code_blocks doc_two_blocks)"]
  have v1: "snd (verify_python_code env_demo world0 (''x = ('' @ [NL])) = Inr False"
    by code_simp
  have v2: "snd (verify_python_code env_demo world0 (''y = 1'' @ [NL])) = Inr True"
    by code_simp
  have m: "\<not> has_marker (''x = ('' @ [NL])" "\<not> has_marker (''y = 1'' @ [NL])"
    by code_simp+
  have c: "py_compile_calls world0 = []" by (simp add: world0_def)
  from verified_is_conjunction_unless_raise [OF e, of "''tip''"]
  obtain w' pd where
    "process_markdown_file env_demo world0 ''tip'' (Some doc_two_blocks) = (w', Inr pd)"
    "verified pd = list_all (\<lambda>b. snd (verify_python_code env_demo world0 (block_code b)) = Inr True)
                           (filter is_python (extract_code_blocks doc_two_blocks))"
    "py_compile_calls w' = py_compile_calls world0 @
             filter (\<lambda>code. \<not> has_marker code)
               (map block_code (filter is_python (extract_code_blocks doc_two_blocks)))"
    by blast
  then have "process_markdown_file env_demo world0 ''tip'' (Some doc_two_blocks) = (w', Inr pd) \<and>
      verified pd = False \<and> py_compile_calls w' = [''x = ('' @ [NL], ''y = 1'' @ [NL]]"
    using v1 v2 m c by (simp add: doc_two_blocks_python block_code_def)
  with e v1 v2 show ?thesis by blast
qed

text \<open>
  The claim C8 as stated has the function return a full result for every document.
  Where \<open>python\<close> cannot be started, the verification of the first block of
  \<open>doc_two_blocks\<close> raises and no result is returned.
\<close>

theorem verified_full_result_counterexample:
  "\<not> (\<forall>e w stem content.
        \<exists>w' pd. process_markdown_file e w stem (Some content) = (w', Inr pd) \<and>
          verified pd = list_all (\<lambda>b. snd (verify_python_code e w (block_code b)) = Inr True)
                          (filter is_python (extract_code_blocks content)))"
proof
  assume "\<forall>e w stem content.
        \<exists>w' pd. process_markdown_file e w stem (Some content) = (w', Inr pd) \<and>
          verified pd = list_all (\<lambda>b. snd (verify_python_code e w (block_code b)) = Inr True)
                          (filter is_python (extract_code_blocks content))"
  then have "\<exists>w' pd. process_markdown_file env_no_python world0 ''tip'' (Some doc_two_blocks) =
      (w', Inr pd)"
    by blast
  with doc_two_blocks_no_python show False by auto
qed

section \<open>The assembled post\<close>

lemma relocate_nothing: "foldl (relocate mv_ok images_dir) [] root_images = []"
  by (induction root_images) (simp_all add: relocate_def)

lemma prepare_social_post_result:
  "fst (prepare_social_post e w stem output_dir file root_images mv_ok) =
     fst (process_markdown_file e w stem file) \<and>
   snd (prepare_social_post e w stem output_dir file root_images mv_ok) =
     (case snd (process_markdown_file e w stem file) of
        Inl err \<Rightarrow> Inl err
      | Inr pd \<Rightarrow> Inr \<lparr>post_title = title pd, post_verified = verified pd, image_paths = [],
                        thread = create_twitter_thread pd [], thread_count = 2,
                        linkedin_content = sub_title_line (clean_content pd)\<rparr>)"
proof -
  obtain w1 r where p: "process_markdown_file e w stem file = (w1, r)"
    by (cases "process_markdown_file e w stem file")
  then show ?thesis
    by (cases r)
       (simp_all add: prepare_social_post_def Let_def relocate_nothing create_twitter_thread_def)
qed

text \<open>
  C2 at a failing input. \<open>doc_both_markers\<close> has a block of a recognized language
  with the label \<open>BEFORE\<close>, and the manifest \<open>prepare_social_post\<close> returns is empty:
  the call that renders the blocks is commented out.
\<close>

theorem manifest_empty_despite_labelled_block:
  "(''python'', ''# AFTER: b'' @ [NL] @ ''# BEFORE: a'' @ [NL], ''BEFORE'')
     \<in> set (extract_code_blocks doc_both_markers) \<and>
   recognized ''python'' \<and>
   (\<exists>w' r. prepare_social_post env_demo world0 ''tip'' ''out'' (Some doc_both_markers)
      [''./tip-AbC.png''] (\<lambda>p. True) = (w', Inr r) \<and> image_paths r = [])"
proof -
  have mem: "(''python'', ''# AFTER: b'' @ [NL] @ ''# BEFORE: a'' @ [NL], ''BEFORE'')
      \<in> set (extract_code_blocks doc_both_markers)"
    by (simp add: doc_both_markers_blocks)
  have rec: "recognized ''python''" by code_simp
  obtain w1 pd where
    "process_markdown_file env_demo world0 ''tip'' (Some doc_both_markers) = (w1, Inr pd)"
    using process_markdown_file_runs [OF env_demo_blocks, where w = world0 and ?w0.0 = world0
        and content = doc_both_markers and stem = "''tip''"]
    by blast
  then have "\<exists>w' r. prepare_social_post env_demo world0 ''tip'' ''out'' (Some doc_both_markers)
      [''./tip-AbC.png''] (\<lambda>p. True) = (w', Inr r) \<and> image_paths r = []"
    using prepare_social_post_result [of env_demo world0 "''tip''" "''out''"
      "Some doc_both_markers" "[''./tip-AbC.png'']" "\<lambda>p. True"]
    by (cases "prepare_social_post env_demo world0 ''tip'' ''out'' (Some doc_both_markers)
          [''./tip-AbC.png''] (\<lambda>p. True)") auto
  with mem rec show ?thesis by simp
qed

text \<open>
  C3 at a failing input. The cleaned content of \<open>doc_tip\<close> begins with the text of
  the title heading, and the LinkedIn body still begins with that line:
  \<open>clean_for_social\<close> has removed the \<open>##\<close> that the pattern \<open>^##.*?\n\n\<close> looks for.
\<close>

theorem linkedin_keeps_title_line:
  "startswith (clean_for_social doc_tip) ''Tip 1'' \<and>
   (\<exists>w' r. prepare_social_post env_demo world0 ''tip001'' ''out'' (Some doc_tip) [] (\<lambda>p. True) =
      (w', Inr r) \<and>
      post_title r = ''Tip 1'' \<and>
      linkedin_content r = ''Tip 1'' @ [NL, NL] @ ''**Do X**'' @ [NL, NL] @ ''Body'')"
proof -
  have cl: "clean_for_social doc_tip = ''Tip 1'' @ [NL, NL] @ ''**Do X**'' @ [NL, NL] @ ''Body''"
    by code_simp
  have st: "startswith (''Tip 1'' @ [NL, NL] @ ''**Do X**'' @ [NL, NL] @ ''Body'') ''Tip 1''"
    by (simp add: startswith_def)
  have su: "sub_title_line (''Tip 1'' @ [NL, NL] @ ''**Do X**'' @ [NL, NL] @ ''Body'') =
      ''Tip 1'' @ [NL, NL] @ ''**Do X**'' @ [NL, NL] @ ''Body''"
    by code_simp
  have ti: "re_search m_title True 0 doc_tip = Some (0, 8, [''Tip 1''])"
    by code_simp
  obtain w1 pd where pm: "process_markdown_file env_demo world0 ''tip001'' (Some doc_tip) = (w1, Inr pd)"
    and cc: "clean_content pd = clean_for_social doc_tip"
    using process_markdown_file_runs [OF env_demo_blocks, where w = world0 and ?w0.0 = world0
        and content = doc_tip and stem = "''tip001''"]
    by blast
  from pm have "title pd = ''Tip 1''"
    by (auto simp: process_markdown_file_def Let_def ti split: prod.splits sum.splits)
  with pm cc cl su have "\<exists>w' r. prepare_social_post env_demo world0 ''tip001'' ''out'' (Some doc_tip) [] (\<lambda>p. True) =
      (w', Inr r) \<and> post_title r = ''Tip 1'' \<and>
      linkedin_content r = ''Tip 1'' @ [NL, NL] @ ''**Do X**'' @ [NL, NL] @ ''Body''"
    using prepare_social_post_result [of env_demo world0 "''tip001''" "''out''"
      "Some doc_tip" "[]" "\<lambda>p. True"]
    by (cases "prepare_social_post env_demo world0 ''tip001'' ''out'' (Some doc_tip) [] (\<lambda>p. True)")
       auto
  with cl st show ?thesis by simp
qed

section \<open>Cleaning twice\<close>

lemma run_simps [simp]:
  "run [] = 0" "run (c # cs) = (if c = NL then Suc (run cs) else 0)"
  by (simp_all add: run_def)

lemma has_triple_Cons: "has_triple (a # x) \<longleftrightarrow> (a = NL \<and> 2 \<le> run x) \<or> has_triple x"
proof (cases x)
  case Nil
  then show ?thesis by simp
next
  case (Cons b y)
  then show ?thesis by (cases y) auto
qed

lemma has_triple_append_left: "has_triple y \<Longrightarrow> has_triple (x @ y)"
  by (induction x) (simp_all add: has_triple_Cons)

lemma run_append_le: "run x \<le> run (x @ y)"
  by (induction x) simp_all

lemma has_triple_append_right: "has_triple x \<Longrightarrow> has_triple (x @ y)"
proof (induction x)
  case Nil
  then show ?case by simp
next
  case (Cons a x)
  then show ?case
    using run_append_le [of x y] by (auto simp: has_triple_Cons)
qed

lemma m_blank_eq: "m_blank bol s = (if 3 \<le> run s then Some ([], run s) else None)"
  by (simp add: m_blank_def run_def Let_def)

lemma run_ge3_triple: "3 \<le> run s \<Longrightarrow> has_triple s"
proof -
  assume a: "3 \<le> run s"
  then obtain a x where s: "s = a # x" by (cases s) auto
  with a have "a = NL" "2 \<le> run x" by (auto split: if_splits)
  with s show ?thesis by (simp add: has_triple_Cons)
qed

lemma blank_search_triple: "re_search m_blank bol i s \<noteq> None \<Longrightarrow> has_triple s"
proof (induction s arbitrary: bol i)
  case Nil
  then show ?case by (simp add: m_blank_eq)
next
  case (Cons c cs)
  show ?case
  proof (cases "3 \<le> run (c # cs)")
    case True
    then show ?thesis by (rule run_ge3_triple)
  next
    case False
    then have "m_blank bol (c # cs) = None" by (simp add: m_blank_eq)
    with Cons.prems have "re_search m_blank (c = NL) (Suc i) cs \<noteq> None" by simp
    then have "has_triple cs" by (rule Cons.IH)
    then show ?thesis by (simp add: has_triple_Cons)
  qed
qed

lemma drop_run: "drop (run s) s = dropWhile (\<lambda>c. c = NL) s"
  by (simp add: run_def dropWhile_eq_drop)

lemma run_dropWhile: "run (dropWhile (\<lambda>c. c = NL) s) = 0"
  by (induction s) simp_all

lemma collapse_shape:
  "run (re_sub m_blank (\<lambda>gs. [NL, NL]) bol s) = min (run s) 2 \<and>
   \<not> has_triple (re_sub m_blank (\<lambda>gs. [NL, NL]) bol s)"
proof (induction "length s" arbitrary: s bol rule: less_induct)
  case less
  show ?case
  proof (cases s)
    case Nil
    then show ?thesis by simp
  next
    case (Cons c cs)
    show ?thesis
    proof (cases "3 \<le> run (c # cs)")
      case True
      then have c: "c = NL" and r: "2 \<le> run cs" by (auto split: if_splits)
      define n where "n = run cs"
      from c n_def have m: "m_blank bol (c # cs) = Some ([], Suc n)"
        using True by (simp add: m_blank_eq)
      have "drop n cs = dropWhile (\<lambda>c. c = NL) cs"
        unfolding n_def by (rule drop_run)
      then have r0: "run (drop n cs) = 0" by (simp add: run_dropWhile)
      have "length (drop n cs) < length s" using Cons by simp
      from less [OF this, of "(c # cs) ! n = NL"] r0
      have "run (re_sub m_blank (\<lambda>gs. [NL, NL]) ((c # cs) ! n = NL) (drop n cs)) = 0"
        and "\<not> has_triple (re_sub m_blank (\<lambda>gs. [NL, NL]) ((c # cs) ! n = NL) (drop n cs))"
        by simp_all
      moreover from m have "re_sub m_blank (\<lambda>gs. [NL, NL]) bol (c # cs) =
          [NL, NL] @ re_sub m_blank (\<lambda>gs. [NL, NL]) ((c # cs) ! n = NL) (drop n cs)"
        by simp
      ultimately show ?thesis
        using True Cons by (simp add: has_triple_Cons)
    next
      case False
      then have m: "m_blank bol (c # cs) = None" by (simp add: m_blank_eq)
      have "length cs < length s" using Cons by simp
      from less [OF this, of "c = NL"]
      have ih: "run (re_sub m_blank (\<lambda>gs. [NL, NL]) (c = NL) cs) = min (run cs) 2"
        "\<not> has_triple (re_sub m_blank (\<lambda>gs. [NL, NL]) (c = NL) cs)"
        by simp_all
      from m have eq: "re_sub m_blank (\<lambda>gs. [NL, NL]) bol (c # cs) =
          c # re_sub m_blank (\<lambda>gs. [NL, NL]) (c = NL) cs"
        by simp
      from False ih show ?thesis
        unfolding Cons eq by (auto simp: has_triple_Cons split: if_splits)
    qed
  qed
qed

lemma rev_dropWhile_split:
  "v = rev (dropWhile P (rev v)) @ rev (takeWhile P (rev v))"
proof -
  have "rev (takeWhile P (rev v) @ dropWhile P (rev v)) = rev (rev v)"
    by (simp only: takeWhile_dropWhile_id)
  then show ?thesis
    by (simp only: rev_append rev_rev_ident)
qed

lemma strip_inside: "\<exists>a b. s = a @ strip s @ b"
proof -
  define v where "v = dropWhile is_space s"
  have "v = strip s @ rev (takeWhile is_space (rev v))"
    unfolding strip_def v_def by (rule rev_dropWhile_split)
  moreover have "s = takeWhile is_space s @ v"
    by (simp add: v_def)
  ultimately show ?thesis by metis
qed

lemma strip_no_triple: "\<not> has_triple s \<Longrightarrow> \<not> has_triple (strip s)"
proof -
  assume n: "\<not> has_triple s"
  obtain a b where s: "s = a @ strip s @ b" using strip_inside by blast
  show "\<not> has_triple (strip s)"
  proof
    assume "has_triple (strip s)"
    then have "has_triple (a @ strip s @ b)"
      by (intro has_triple_append_left has_triple_append_right)
    with s n show False by simp
  qed
qed

lemma strip_ends:
  "strip s = [] \<or> (\<not> is_space (hd (strip s)) \<and> \<not> is_space (last (strip s)))"
proof (cases "strip s = []")
  case True
  then show ?thesis by simp
next
  case False
  define v where "v = dropWhile is_space s"
  have b: "strip s = rev (dropWhile is_space (rev v))"
    by (simp add: strip_def v_def)
  with False have ne: "dropWhile is_space (rev v) \<noteq> []" by simp
  then have "\<not> is_space (hd (dropWhile is_space (rev v)))"
    by (rule hd_dropWhile)
  with ne b have l: "\<not> is_space (last (strip s))"
    by (simp add: last_rev)
  have v: "v = strip s @ rev (takeWhile is_space (rev v))"
    unfolding b by (rule rev_dropWhile_split)
  with False have "hd v = hd (strip s)" and "v \<noteq> []"
    by (metis hd_append2, metis append_is_Nil_conv)
  moreover from \<open>v \<noteq> []\<close> have "\<not> is_space (hd v)"
    unfolding v_def by (rule hd_dropWhile)
  ultimately show ?thesis using l by simp
qed

lemma strip_fixed: "t = [] \<or> (\<not> is_space (hd t) \<and> \<not> is_space (last t)) \<Longrightarrow> strip t = t"
proof (cases "t = []")
  case True
  then show ?thesis by (simp add: strip_def)
next
  case False
  assume "t = [] \<or> (\<not> is_space (hd t) \<and> \<not> is_space (last t))"
  with False have h: "\<not> is_space (hd t)" and l: "\<not> is_space (last t)" by simp_all
  from False h have "dropWhile is_space t = t"
    by (cases t) simp_all
  moreover have "dropWhile is_space (rev t) = rev t"
  proof (cases "rev t")
    case Nil
    then show ?thesis by simp
  next
    case (Cons a r)
    with False have "a = last t"
      using hd_rev [of t] by simp
    with l have "dropWhile is_space (a # r) = a # r" by simp
    with Cons show ?thesis by (simp only:)
  qed
  ultimately show ?thesis by (simp add: strip_def)
qed

lemma strip_strip: "strip (strip s) = strip s"
  using strip_ends [of s] by (rule strip_fixed)

text \<open>
  C4, as the code has it. When the cleaned text holds no fenced code block, no
  heading markup and no bare \<open>Python\<close> line any more, cleaning it again changes
  nothing.
\<close>

theorem clean_for_social_idempotent_when_settled:
  assumes "\<not> has_match m_fence (clean_for_social s)"
    and "\<not> has_match m_header (clean_for_social s)"
    and "\<not> has_match m_python (clean_for_social s)"
  shows "clean_for_social (clean_for_social s) = clean_for_social s"
proof -
  define t where "t = clean_for_social s"
  have "\<exists>u bol. t = strip (re_sub m_blank (\<lambda>gs. [NL, NL]) bol u)"
    unfolding t_def clean_for_social_def Let_def by blast
  then obtain u bol where t: "t = strip (re_sub m_blank (\<lambda>gs. [NL, NL]) bol u)"
    by blast
  have nt: "\<not> has_triple t"
    unfolding t using collapse_shape [of bol u] by (intro strip_no_triple) simp
  from assms have "re_search m_fence True 0 t = None" "re_search m_header True 0 t = None"
    "re_search m_python True 0 t = None"
    unfolding t_def has_match_def by blast+
  then have f: "re_sub m_fence (\<lambda>gs. ''[Code example - see attached image]'') True t = t"
    and h: "re_sub m_header (\<lambda>gs. hd gs) True t = t"
    and p: "re_sub m_python (\<lambda>gs. []) True t = t"
    by (simp_all only: re_search_None_re_sub)
  from nt have "re_search m_blank True 0 t = None"
    using blank_search_triple [of True 0 t] by blast
  then have b: "re_sub m_blank (\<lambda>gs. [NL, NL]) True t = t"
    by (rule re_search_None_re_sub)
  have "strip t = t"
    unfolding t by (rule strip_strip)
  with f h p b have "clean_for_social t = t"
    by (simp add: clean_for_social_def)
  then show ?thesis by (simp add: t_def)
qed

theorem clean_for_social_idempotent_when_settled_witness:
  "\<not> has_match m_fence (clean_for_social doc_plain) \<and>
   \<not> has_match m_header (clean_for_social doc_plain) \<and>
   \<not> has_match m_python (clean_for_social doc_plain) \<and>
   clean_for_social doc_plain = ''Tip 1'' @ [NL, NL] @ ''[Code example - see attached image]'' \<and>
   clean_for_social (clean_for_social doc_plain) = clean_for_social doc_plain"
proof -
  have c: "clean_for_social doc_plain = ''Tip 1'' @ [NL, NL] @ ''[Code example - see attached image]''"
    by code_simp
  have 1: "\<not> has_match m_fence (''Tip 1'' @ [NL, NL] @ ''[Code example - see attached image]'')"
    by code_simp
  have 2: "\<not> has_match m_header (''Tip 1'' @ [NL, NL] @ ''[Code example - see attached image]'')"
    by code_simp
  have 3: "\<not> has_match m_python (''Tip 1'' @ [NL, NL] @ ''[Code example - see attached image]'')"
    by code_simp
  from 1 2 3 have h: "\<not> has_match m_fence (clean_for_social doc_plain)"
    "\<not> has_match m_header (clean_for_social doc_plain)"
    "\<not> has_match m_python (clean_for_social doc_plain)"
    unfolding c by simp_all
  from clean_for_social_idempotent_when_settled [OF h] h c show ?thesis
    by simp
qed

text \<open>
  The claim C4 as stated fails: cleaning \<open># # x\<close> gives \<open># x\<close>, a heading again, and
  cleaning that gives \<open>x\<close>.
\<close>

theorem clean_for_social_idempotent_counterexample:
  "\<not> (\<forall>s. clean_for_social (clean_for_social s) = clean_for_social s)"
proof
  assume "\<forall>s. clean_for_social (clean_for_social s) = clean_for_social s"
  then have "clean_for_social (clean_for_social ''# # x'') = clean_for_social ''# # x''"
    by blast
  moreover have "clean_for_social ''# # x'' = ''# x''"
    by code_simp
  moreover have "clean_for_social ''# x'' = ''x''"
    by code_simp
  ultimately show False by simp
qed

end
